theory Spec2Isabelle
  imports Main "HOL-Library.Multiset"
begin

section \<open>Data model of the analyzer (src/src/analyzer.py)\<close>

text \<open>
  An address is a Python string; a timestamp is a Python (unbounded) integer; a time
  window is the tuple \<^verbatim>\<open>(min_ts, max_ts)\<close> stored by \<^verbatim>\<open>add_constraint\<close>.
\<close>

type_synonym address = string
type_synonym window = "int \<times> int"

text \<open>
  A Python \<^verbatim>\<open>set\<close> of addresses is represented by a list without duplicates. The order
  in which Python iterates over a set is not specified by the language; it is chosen
  here by the function \<open>nth_perm\<close>, which rearranges the representing list according
  to a number supplied by the environment, so that no result depends on one
  particular order.
\<close>

type_synonym 'a pyset = "'a list"

definition py_add :: "'a \<Rightarrow> 'a pyset \<Rightarrow> 'a pyset" where
  "py_add x S = (if x \<in> set S then S else S @ [x])"

definition py_update :: "'a pyset \<Rightarrow> 'a list \<Rightarrow> 'a pyset" where
  "py_update S xs = fold py_add xs S"

definition py_set :: "'a list \<Rightarrow> 'a pyset" where
  "py_set xs = py_update [] xs"

definition py_intersection :: "'a pyset \<Rightarrow> 'a pyset \<Rightarrow> 'a pyset" where
  "py_intersection A B = filter (\<lambda>x. x \<in> set B) A"

fun nth_perm :: "nat \<Rightarrow> 'a list \<Rightarrow> 'a list" where
  "nth_perm n [] = []"
| "nth_perm n (x # xs) =
     (let k = n mod Suc (length xs);
          ys = nth_perm (n div Suc (length xs)) xs
      in take k ys @ x # drop k ys)"

text \<open>
  The JSON transaction records returned by the lookup service, as \<^verbatim>\<open>analyze\<close> reads
  them: \<^verbatim>\<open>tx.get('time', 0)\<close>, \<^verbatim>\<open>tx.get('hash')\<close>, \<^verbatim>\<open>tx.get('inputs', [])\<close>,
  \<^verbatim>\<open>tx.get('out', [])\<close>, \<^verbatim>\<open>inp.get('prev_out')\<close> and \<^verbatim>\<open>o.get('addr')\<close>. A key that is
  absent (or \<^verbatim>\<open>null\<close>) is \<open>None\<close>.
\<close>

datatype tx_out = TxOut (addr: "address option")

datatype tx_in = TxIn (prev_out: "tx_out option")

record tx =
  time :: "int option"
  hash :: "string option"
  inputs :: "tx_in list"
  out :: "tx_out list"

text \<open>
  The outcome of \<^verbatim>\<open>requests.get(url)\<close> followed by \<^verbatim>\<open>response.json()\<close>: the request
  raises, or it yields a response with a status code and a body; the body either fails
  to decode as a JSON object or is an object whose key \<^verbatim>\<open>'txs'\<close> may be absent.
\<close>

datatype json_body = Malformed | Data "tx list option"

datatype http_result = TransportError | Response (status_code: int) (body: json_body)

datatype exn = RequestException | JSONDecodeError | NetworkXError

text \<open>
  The environment of a run: the lookup service, which may answer every request
  differently (the first argument identifies the request by level and batch number),
  and the iteration order of sets.
\<close>

record world =
  http_get :: "int \<times> nat \<Rightarrow> string \<Rightarrow> http_result"
  set_order :: "address list \<Rightarrow> nat"

definition list_of :: "world \<Rightarrow> address pyset \<Rightarrow> address list" where
  "list_of w S = nth_perm (set_order w S) S"

text \<open>
  \<^verbatim>\<open>nx.DiGraph\<close>: the nodes, and a dictionary from ordered pairs of nodes to the edge
  attributes \<^verbatim>\<open>tx_hash\<close> and \<^verbatim>\<open>time\<close>, kept as an association list.
\<close>

type_synonym edge_attr = "string option \<times> int"

record graph =
  nodes :: "address list"
  edges :: "((address \<times> address) \<times> edge_attr) list"

text \<open>The fields of \<^verbatim>\<open>BitcoinAnalyzer\<close>.\<close>

record analyzer =
  initial_addresses :: "address pyset"
  max_level :: int
  graph :: graph
  visited_addresses :: "address pyset"
  all_transactions :: "tx list"
  address_constraints :: "address \<rightharpoonup> window list"

section \<open>Constraint store\<close>

definition add_constraint :: "address \<Rightarrow> int \<Rightarrow> int \<Rightarrow> analyzer \<Rightarrow> analyzer" where
  "add_constraint a min_ts max_ts st =
     (let cs = (if a \<notin> dom (address_constraints st)
                then (address_constraints st)(a \<mapsto> [])
                else address_constraints st)
      in st\<lparr>address_constraints := cs(a \<mapsto> the (cs a) @ [(min_ts, max_ts)])\<rparr>)"

fun in_some_window :: "window list \<Rightarrow> int \<Rightarrow> bool" where
  "in_some_window [] tx_time = False"
| "in_some_window ((min_ts, max_ts) # ws) tx_time =
     (if min_ts \<le> tx_time \<and> tx_time \<le> max_ts then True else in_some_window ws tx_time)"

definition is_tx_relevant :: "analyzer \<Rightarrow> address \<Rightarrow> int \<Rightarrow> bool" where
  "is_tx_relevant st a tx_time =
     (case address_constraints st a of
        None \<Rightarrow> False
      | Some ws \<Rightarrow> in_some_window ws tx_time)"

text \<open>
  \<^verbatim>\<open>__init__\<close>. A date is given by the integer \<^verbatim>\<open>int(date.timestamp())\<close>; \<open>None\<close> is
  a date that was not supplied.
\<close>

definition init :: "world \<Rightarrow> address list \<Rightarrow> int \<Rightarrow> int option \<Rightarrow> int option \<Rightarrow> analyzer" where
  "init w addrs ml start_date end_date =
     (let start_ts = (case start_date of Some d \<Rightarrow> d | None \<Rightarrow> 0);
          end_ts = (case end_date of Some d \<Rightarrow> d | None \<Rightarrow> 99999999999);
          st = \<lparr>initial_addresses = py_set addrs, max_level = ml,
                graph = \<lparr>nodes = [], edges = []\<rparr>, visited_addresses = [],
                all_transactions = [], address_constraints = Map.empty\<rparr>
      in fold (\<lambda>a. add_constraint a start_ts end_ts) (list_of w (py_set addrs)) st)"

text \<open>The windows recorded for an address (none when it has no entry).\<close>

definition windows :: "analyzer \<Rightarrow> address \<Rightarrow> window list" where
  "windows st a = (case address_constraints st a of None \<Rightarrow> [] | Some ws \<Rightarrow> ws)"

section \<open>The lookup client\<close>

fun join :: "string \<Rightarrow> string list \<Rightarrow> string" where
  "join sep [] = []"
| "join sep [x] = x"
| "join sep (x # y # ys) = x @ sep @ join sep (y # ys)"

definition lookup_url :: "address list \<Rightarrow> string" where
  "lookup_url addresses =
     ''https://blockchain.info/multiaddr?active='' @ join ''|'' addresses @ ''&n=100''"

text \<open>
  The body of the \<^verbatim>\<open>try\<close> block of \<^verbatim>\<open>fetch_batch_transactions\<close>: \<open>Inl\<close> is an
  exception raised inside it.
\<close>

definition try_fetch :: "world \<Rightarrow> int \<times> nat \<Rightarrow> string \<Rightarrow> exn + tx list" where
  "try_fetch w k url =
     (case http_get w k url of
        TransportError \<Rightarrow> Inl RequestException
      | Response code data \<Rightarrow>
          if code = 200
          then (case data of
                  Malformed \<Rightarrow> Inl JSONDecodeError
                | Data None \<Rightarrow> Inr []
                | Data (Some txs) \<Rightarrow> Inr txs)
          else Inr [])"

text \<open>The \<^verbatim>\<open>except Exception\<close> clause turns every exception of the block into \<open>[]\<close>.\<close>

definition fetch_batch_transactions :: "world \<Rightarrow> int \<times> nat \<Rightarrow> address list \<Rightarrow> tx list" where
  "fetch_batch_transactions w k addresses =
     (if addresses = [] then []
      else case try_fetch w k (lookup_url addresses) of
             Inl e \<Rightarrow> []
           | Inr txs \<Rightarrow> txs)"

section \<open>The transaction graph\<close>

definition add_node :: "address \<Rightarrow> graph \<Rightarrow> graph" where
  "add_node n G = G\<lparr>nodes := py_add n (nodes G)\<rparr>"

definition add_nodes_from :: "address list \<Rightarrow> graph \<Rightarrow> graph" where
  "add_nodes_from ns G = fold add_node ns G"

text \<open>Assignment to a dictionary key: the value of a present key is replaced.\<close>

fun dict_set :: "'k \<Rightarrow> 'v \<Rightarrow> ('k \<times> 'v) list \<Rightarrow> ('k \<times> 'v) list" where
  "dict_set k v [] = [(k, v)]"
| "dict_set k v ((k', v') # kvs) =
     (if k' = k then (k, v) # kvs else (k', v') # dict_set k v kvs)"

definition add_edge :: "address \<Rightarrow> address \<Rightarrow> string option \<Rightarrow> int \<Rightarrow> graph \<Rightarrow> graph" where
  "add_edge s r tx_hash tx_time G =
     (add_node r (add_node s G))\<lparr>edges := dict_set (s, r) (tx_hash, tx_time) (edges G)\<rparr>"

text \<open>\<^verbatim>\<open>G.subgraph(ns).copy()\<close>: the nodes of \<open>G\<close> among \<open>ns\<close> and the edges between them.\<close>

definition subgraph :: "graph \<Rightarrow> address list \<Rightarrow> graph" where
  "subgraph G ns =
     \<lparr>nodes = filter (\<lambda>n. n \<in> set ns) (nodes G),
      edges = filter (\<lambda>((s, r), _). s \<in> set ns \<and> r \<in> set ns) (edges G)\<rparr>"

section \<open>The expansion engine\<close>

definition tx_time_of :: "tx \<Rightarrow> int" where
  "tx_time_of t = (case time t of Some x \<Rightarrow> x | None \<Rightarrow> 0)"

definition senders_of :: "tx \<Rightarrow> address pyset" where
  "senders_of t =
     fold (\<lambda>inp senders.
             case prev_out inp of
               None \<Rightarrow> senders
             | Some p \<Rightarrow>
                 (case addr p of
                    None \<Rightarrow> senders
                  | Some a \<Rightarrow> if a = [] then senders else py_add a senders))
          (inputs t) []"

definition receivers_of :: "tx \<Rightarrow> address pyset" where
  "receivers_of t =
     fold (\<lambda>ou receivers.
             case addr ou of
               None \<Rightarrow> receivers
             | Some a \<Rightarrow> if a = [] then receivers else py_add a receivers)
          (out t) []"

definition all_participants :: "tx \<Rightarrow> address pyset" where
  "all_participants t = py_update (senders_of t) (receivers_of t)"

text \<open>
  The relevance check of \<^verbatim>\<open>analyze\<close>: some participant is in the batch and has a window
  that contains the transaction's time.
\<close>

definition is_relevant :: "world \<Rightarrow> analyzer \<Rightarrow> address list \<Rightarrow> tx \<Rightarrow> bool" where
  "is_relevant w st batch t =
     list_ex (\<lambda>a. a \<in> set batch \<and> is_tx_relevant st a (tx_time_of t))
             (list_of w (all_participants t))"

definition one_week :: int where
  "one_week = 7 * 24 * 3600"

text \<open>
  The state of the loops of a level: the analyzer and \<^verbatim>\<open>next_level_addresses\<close>.
  \<open>propagate\<close> is one of the two \<^verbatim>\<open>if ... not in self.visited_addresses and ... not in
  current_level_addresses\<close> blocks, \<open>link\<close> the body of the loop over senders and
  receivers.
\<close>

definition propagate ::
  "address list \<Rightarrow> int \<Rightarrow> address \<Rightarrow> analyzer \<times> address pyset \<Rightarrow> analyzer \<times> address pyset" where
  "propagate cur tx_time a = (\<lambda>(st, nxt).
     if a \<notin> set (visited_addresses st) \<and> a \<notin> set cur
     then (add_constraint a (tx_time - one_week) (tx_time + one_week) st, py_add a nxt)
     else (st, nxt))"

definition link ::
  "int \<Rightarrow> address list \<Rightarrow> string option \<Rightarrow> int \<Rightarrow> address \<Rightarrow> address
     \<Rightarrow> analyzer \<times> address pyset \<Rightarrow> analyzer \<times> address pyset" where
  "link level cur tx_hash tx_time s r = (\<lambda>(st, nxt).
     if s \<noteq> r
     then (let st1 = st\<lparr>graph := add_edge s r tx_hash tx_time (graph st)\<rparr>
           in if level < max_level st1
              then propagate cur tx_time r (propagate cur tx_time s (st1, nxt))
              else (st1, nxt))
     else (st, nxt))"

definition process_tx ::
  "world \<Rightarrow> int \<Rightarrow> address list \<Rightarrow> address list \<Rightarrow> tx
     \<Rightarrow> analyzer \<times> address pyset \<Rightarrow> analyzer \<times> address pyset" where
  "process_tx w level cur batch t = (\<lambda>(st, nxt).
     if \<not> is_relevant w st batch t then (st, nxt)
     else fold (\<lambda>s. fold (link level cur (hash t) (tx_time_of t) s)
                          (list_of w (receivers_of t)))
               (list_of w (senders_of t))
               (st\<lparr>all_transactions := all_transactions st @ [t]\<rparr>, nxt))"

text \<open>
  \<^verbatim>\<open>[cur[i:i + 20] for i in range(0, len(cur), 20)]\<close>, and the loop over the batches;
  a batch is paired with its number, which identifies its request.
\<close>

definition batches :: "'a list \<Rightarrow> 'a list list" where
  "batches cur = map (\<lambda>k. take 20 (drop (20 * k) cur)) [0..<(length cur + 19) div 20]"

definition process_batch ::
  "world \<Rightarrow> int \<Rightarrow> address list \<Rightarrow> nat \<times> address list
     \<Rightarrow> analyzer \<times> address pyset \<Rightarrow> analyzer \<times> address pyset" where
  "process_batch w level cur = (\<lambda>(i, batch).
     fold (process_tx w level cur batch) (fetch_batch_transactions w (level, i) batch))"

definition run_level ::
  "world \<Rightarrow> int \<Rightarrow> address list \<Rightarrow> analyzer \<Rightarrow> analyzer \<times> address pyset" where
  "run_level w level cur st =
     fold (process_batch w level cur) (enumerate 0 (batches cur)) (st, [])"

text \<open>
  The end of a level: \<^verbatim>\<open>visited_addresses.update(next_level_addresses)\<close> and the new
  \<^verbatim>\<open>current_level_addresses\<close>.
\<close>

definition finish_level :: "world \<Rightarrow> analyzer \<times> address pyset \<Rightarrow> address list \<times> analyzer" where
  "finish_level w = (\<lambda>(st, nxt).
     (list_of w nxt, st\<lparr>visited_addresses := py_update (visited_addresses st) nxt\<rparr>))"

text \<open>
  The loop \<^verbatim>\<open>for level in range(self.max_level + 1)\<close>, with its \<^verbatim>\<open>break\<close> on an empty
  frontier. \<open>level_starts\<close> lists, for every level that is entered, the level, the
  frontier and the analyzer at its start.
\<close>

fun run_levels :: "world \<Rightarrow> int list \<Rightarrow> address list \<Rightarrow> analyzer \<Rightarrow> analyzer" where
  "run_levels w [] cur st = st"
| "run_levels w (level # levels) cur st =
     (if cur = [] then st
      else (case finish_level w (run_level w level cur st) of
              (cur', st') \<Rightarrow> run_levels w levels cur' st'))"

fun level_starts ::
  "world \<Rightarrow> int list \<Rightarrow> address list \<Rightarrow> analyzer \<Rightarrow> (int \<times> address list \<times> analyzer) list" where
  "level_starts w [] cur st = []"
| "level_starts w (level # levels) cur st =
     (level, cur, st) #
     (if cur = [] then []
      else (case finish_level w (run_level w level cur st) of
              (cur', st') \<Rightarrow> level_starts w levels cur' st'))"

text \<open>The statements of \<^verbatim>\<open>analyze\<close> before its loop.\<close>

definition start :: "world \<Rightarrow> analyzer \<Rightarrow> address list \<times> analyzer" where
  "start w st =
     (list_of w (initial_addresses st),
      st\<lparr>graph := add_nodes_from (list_of w (initial_addresses st)) (graph st),
         visited_addresses := py_update (visited_addresses st) (list_of w (initial_addresses st))\<rparr>)"

definition analyze :: "world \<Rightarrow> analyzer \<Rightarrow> analyzer" where
  "analyze w st =
     (case start w st of (cur, st0) \<Rightarrow> run_levels w [0..max_level st0] cur st0)"

definition analyze_level_starts ::
  "world \<Rightarrow> analyzer \<Rightarrow> (int \<times> address list \<times> analyzer) list" where
  "analyze_level_starts w st =
     (case start w st of (cur, st0) \<Rightarrow> level_starts w [0..max_level st0] cur st0)"

section \<open>The pruning filter\<close>

definition edge_pairs :: "graph \<Rightarrow> (address \<times> address) list" where
  "edge_pairs G = map fst (edges G)"

text \<open>
  The library functions \<^verbatim>\<open>nx.descendants(G, source)\<close> and \<^verbatim>\<open>nx.ancestors(G, source)\<close>
  of networkx, by their documentation: all nodes reachable from \<open>source\<close> (all nodes
  that reach \<open>source\<close>), \<open>source\<close> itself left out; \<^verbatim>\<open>NetworkXError\<close> when \<open>source\<close> is
  not a node of \<open>G\<close>. \<open>reach\<close> is the breadth-first search over a list of edges:
  \<open>seen\<close> are the nodes found so far, the third argument is the queue.
\<close>

function reach ::
  "(address \<times> address) list \<Rightarrow> address list \<Rightarrow> address list \<Rightarrow> address list" where
  "reach es seen [] = seen"
| "reach es seen (x # queue) =
     (let new = remdups (filter (\<lambda>y. y \<notin> set seen) (map snd (filter (\<lambda>e. fst e = x) es)))
      in reach es (seen @ new) (queue @ new))"
  by pat_completeness auto
termination
proof (relation "measures [\<lambda>(es, seen, queue). card (snd ` set es - set seen),
                           \<lambda>(es, seen, queue). length queue]", goal_cases)
  case 1
  show ?case by simp
next
  case (2 es seen x queue new)
  show ?case
  proof (cases "new = []")
    case True
    then show ?thesis by simp
  next
    case False
    have sub: "set new \<subseteq> snd ` set es - set seen"
      unfolding 2 by auto
    from False obtain y where y: "y \<in> set new"
      by (cases new) auto
    have "snd ` set es - set (seen @ new) \<subset> snd ` set es - set seen"
      using sub y by auto
    then have "card (snd ` set es - set (seen @ new)) < card (snd ` set es - set seen)"
      by (intro psubset_card_mono) auto
    then show ?thesis by simp
  qed
qed

definition descendants :: "graph \<Rightarrow> address \<Rightarrow> exn + address list" where
  "descendants G source =
     (if source \<notin> set (nodes G) then Inl NetworkXError
      else Inr (filter (\<lambda>n. n \<noteq> source) (reach (edge_pairs G) [source] [source])))"

definition ancestors :: "graph \<Rightarrow> address \<Rightarrow> exn + address list" where
  "ancestors G source =
     (if source \<notin> set (nodes G) then Inl NetworkXError
      else Inr (filter (\<lambda>n. n \<noteq> source)
                  (reach (map prod.swap (edge_pairs G)) [source] [source])))"

text \<open>
  The loop of \<^verbatim>\<open>filter_relevant_graph\<close> over \<^verbatim>\<open>initial_list\<close>: each \<^verbatim>\<open>try\<close> block adds
  to its set, or is skipped as a whole when the library call raises.
\<close>

definition collect ::
  "graph \<Rightarrow> address \<Rightarrow> address pyset \<times> address pyset \<Rightarrow> address pyset \<times> address pyset" where
  "collect G node = (\<lambda>(ds, an).
     (case descendants G node of
        Inl e \<Rightarrow> ds
      | Inr d \<Rightarrow> py_add node (py_update ds d),
      case ancestors G node of
        Inl e \<Rightarrow> an
      | Inr a \<Rightarrow> py_add node (py_update an a)))"

definition filter_relevant_graph :: "world \<Rightarrow> analyzer \<Rightarrow> graph" where
  "filter_relevant_graph w st =
     (let initial_list = filter (\<lambda>a. a \<in> set (nodes (graph st)))
                                (list_of w (initial_addresses st))
      in if length initial_list < 2 then subgraph (graph st) initial_list
         else (case fold (collect (graph st)) initial_list ([], []) of
                 (ds, an) \<Rightarrow> subgraph (graph st) (py_intersection ds an)))"

text \<open>
  The pruning filter as the specification words it. \<open>present_seeds\<close> are the seed
  addresses that are nodes of the graph; \<open>seed_descendants\<close> is the set \<open>D\<close> of the
  nodes reachable from a present seed, \<open>seed_ancestors\<close> the set \<open>A\<close> of the nodes
  that reach one (the seed included in both); \<open>induced_subgraph\<close> is the node-induced
  subgraph.
\<close>

definition edge_rel :: "graph \<Rightarrow> (address \<times> address) set" where
  "edge_rel G = set (edge_pairs G)"

definition present_seeds :: "analyzer \<Rightarrow> address set" where
  "present_seeds st = set (initial_addresses st) \<inter> set (nodes (graph st))"

definition seed_descendants :: "analyzer \<Rightarrow> address set" where
  "seed_descendants st = (edge_rel (graph st))\<^sup>* `` present_seeds st"

definition seed_ancestors :: "analyzer \<Rightarrow> address set" where
  "seed_ancestors st = ((edge_rel (graph st))\<inverse>)\<^sup>* `` present_seeds st"

definition induced_subgraph :: "graph \<Rightarrow> address set \<Rightarrow> graph" where
  "induced_subgraph G K =
     \<lparr>nodes = filter (\<lambda>n. n \<in> K) (nodes G),
      edges = filter (\<lambda>((s, r), _). s \<in> K \<and> r \<in> K) (edges G)\<rparr>"

definition pruned_spec :: "analyzer \<Rightarrow> graph" where
  "pruned_spec st =
     (if card (present_seeds st) < 2 then induced_subgraph (graph st) (present_seeds st)
      else induced_subgraph (graph st) (seed_descendants st \<inter> seed_ancestors st))"

text \<open>
  A directed path of the graph is a non-empty list of addresses, each joined to the
  next by an edge; a single address is a path of length zero. An address lies on a
  path between seeds when some path that starts at a present seed and ends at a
  present seed contains it.
\<close>

fun is_path :: "graph \<Rightarrow> address list \<Rightarrow> bool" where
  "is_path G [] = False"
| "is_path G [x] = True"
| "is_path G (x # y # zs) = ((x, y) \<in> edge_rel G \<and> is_path G (y # zs))"

definition on_seed_path :: "analyzer \<Rightarrow> address \<Rightarrow> bool" where
  "on_seed_path st x =
     (\<exists>p. is_path (graph st) p \<and> hd p \<in> present_seeds st \<and> last p \<in> present_seeds st
          \<and> x \<in> set p)"

text \<open>The invariant of \<^verbatim>\<open>nx.DiGraph\<close>: both ends of an edge are nodes.\<close>

definition wf_graph :: "graph \<Rightarrow> bool" where
  "wf_graph G = (\<forall>(s, r) \<in> set (edge_pairs G). s \<in> set (nodes G) \<and> r \<in> set (nodes G))"

text \<open>
  A scenario for the pruning filter: the seeds \<open>A\<close> and \<open>B\<close>, the chain from \<open>A\<close>
  over \<open>X\<close> to \<open>B\<close>, and the dead end \<open>Y\<close> behind \<open>X\<close>. In \<open>lonely\<close> only \<open>A\<close> is a
  seed.
\<close>

definition chain :: analyzer where
  "chain =
     \<lparr>initial_addresses = [''A'', ''B''], max_level = 1,
      graph = \<lparr>nodes = [''A'', ''B'', ''X'', ''Y''],
               edges = [((''A'', ''X''), (Some ''tx1'', 100)),
                        ((''X'', ''B''), (Some ''tx2'', 200)),
                        ((''X'', ''Y''), (Some ''tx3'', 300))]\<rparr>,
      visited_addresses = [''A'', ''B'', ''X'', ''Y''], all_transactions = [],
      address_constraints = Map.empty\<rparr>"

definition lonely :: analyzer where
  "lonely = chain\<lparr>initial_addresses := [''A'']\<rparr>"

definition some_order :: world where
  "some_order = \<lparr>http_get = (\<lambda>k u. TransportError), set_order = (\<lambda>S. 1)\<rparr>"

section \<open>Sets as lists\<close>

lemma set_py_add [simp]: "set (py_add x S) = insert x (set S)"
  by (auto simp: py_add_def)

lemma distinct_py_add [simp]: "distinct S \<Longrightarrow> distinct (py_add x S)"
  by (simp add: py_add_def)

lemma set_py_update [simp]: "set (py_update S xs) = set S \<union> set xs"
  unfolding py_update_def by (induction xs arbitrary: S) auto

lemma distinct_py_update [simp]: "distinct S \<Longrightarrow> distinct (py_update S xs)"
  unfolding py_update_def by (induction xs arbitrary: S) auto

lemma set_py_set [simp]: "set (py_set xs) = set xs"
  by (simp add: py_set_def)

lemma distinct_py_set [simp]: "distinct (py_set xs)"
  by (simp add: py_set_def)

lemma set_py_intersection [simp]: "set (py_intersection A B) = set A \<inter> set B"
  by (auto simp: py_intersection_def)

lemma mset_nth_perm [simp]: "mset (nth_perm n xs) = mset xs"
proof (induction xs arbitrary: n)
  case Nil
  show ?case by simp
next
  case (Cons x xs)
  define k where "k = n mod Suc (length xs)"
  define ys where "ys = nth_perm (n div Suc (length xs)) xs"
  have "mset (take k ys) + mset (drop k ys) = mset ys"
    by (metis append_take_drop_id mset_append)
  moreover have "mset ys = mset xs"
    unfolding ys_def by (rule Cons.IH)
  ultimately show ?case
    by (simp add: Let_def k_def [symmetric] ys_def [symmetric])
qed

lemma set_nth_perm [simp]: "set (nth_perm n xs) = set xs"
  by (rule mset_eq_setD) simp

lemma distinct_nth_perm [simp]: "distinct (nth_perm n xs) = distinct xs"
  by (rule mset_eq_imp_distinct_iff) simp

lemma length_nth_perm [simp]: "length (nth_perm n xs) = length xs"
  by (rule mset_eq_length) simp

lemma nth_perm_0 [simp]: "nth_perm 0 xs = xs"
  by (induction xs) simp_all

lemma mset_list_of [simp]: "mset (list_of w S) = mset S"
  by (simp add: list_of_def)

lemma set_list_of [simp]: "set (list_of w S) = set S"
  by (simp add: list_of_def)

lemma distinct_list_of [simp]: "distinct (list_of w S) = distinct S"
  by (simp add: list_of_def)

lemma length_list_of [simp]: "length (list_of w S) = length S"
  by (simp add: list_of_def)

text \<open>Every order of a set is the choice of some number.\<close>

lemma nth_perm_surj: "mset ys = mset xs \<Longrightarrow> \<exists>n. nth_perm n xs = ys"
proof (induction xs arbitrary: ys)
  case Nil
  then show ?case by simp
next
  case (Cons x xs)
  from Cons.prems have "x \<in> set ys"
    by (metis list.set_intros(1) mset_eq_setD)
  then obtain as bs where ys: "ys = as @ x # bs"
    by (meson split_list)
  with Cons.prems have "mset (as @ bs) = mset xs" by simp
  from Cons.IH [OF this] obtain m where m: "nth_perm m xs = as @ bs" by blast
  have len: "length xs = length as + length bs"
    using m by (metis length_append length_nth_perm)
  define N where "N = Suc (length xs)"
  define n where "n = length as + m * N"
  have "length as < N"
    using len by (simp add: N_def)
  then have "n mod N = length as" "n div N = m"
    by (simp_all add: n_def)
  then have "nth_perm n (x # xs) = ys"
    by (simp add: Let_def m ys N_def [symmetric])
  then show ?case ..
qed

section \<open>Properties of the constraint store\<close>

lemma windows_add_constraint:
  "windows (add_constraint a lo hi st) b =
     (if b = a then windows st a @ [(lo, hi)] else windows st b)"
  by (auto simp: windows_def add_constraint_def Let_def split: option.splits)

lemma in_some_window_iff:
  "in_some_window ws t \<longleftrightarrow> (\<exists>(lo, hi) \<in> set ws. lo \<le> t \<and> t \<le> hi)"
  by (induction ws t rule: in_some_window.induct) auto

lemma is_tx_relevant_windows:
  "is_tx_relevant st a t \<longleftrightarrow> in_some_window (windows st a) t"
  by (simp add: is_tx_relevant_def windows_def split: option.splits)

lemma fields_add_constraint [simp]:
  "initial_addresses (add_constraint a lo hi st) = initial_addresses st"
  "max_level (add_constraint a lo hi st) = max_level st"
  "graph (add_constraint a lo hi st) = graph st"
  "visited_addresses (add_constraint a lo hi st) = visited_addresses st"
  "all_transactions (add_constraint a lo hi st) = all_transactions st"
  by (simp_all add: add_constraint_def Let_def)

lemma windows_fold_add_constraint:
  "distinct xs \<Longrightarrow>
   windows (fold (\<lambda>a. add_constraint a lo hi) xs st) b =
     (if b \<in> set xs then windows st b @ [(lo, hi)] else windows st b)"
  by (induction xs arbitrary: st) (auto simp: windows_add_constraint)

lemma windows_init:
  "windows (init w addrs ml sd ed) a =
     (if a \<in> set addrs
      then [(case sd of Some d \<Rightarrow> d | None \<Rightarrow> 0, case ed of Some d \<Rightarrow> d | None \<Rightarrow> 99999999999)]
      else [])"
  by (simp add: init_def Let_def windows_fold_add_constraint) (simp add: windows_def)

section \<open>Reachability\<close>

lemma reach_seen: "set seen \<subseteq> set (reach es seen queue)"
  by (induction es seen queue rule: reach.induct) (auto simp: Let_def)

lemma reach_sound:
  "set queue \<subseteq> set seen \<Longrightarrow> set (reach es seen queue) \<subseteq> (set es)\<^sup>* `` set seen"
proof (induction es seen queue rule: reach.induct)
  case (1 es seen)
  show ?case by auto
next
  case (2 es seen x queue)
  define new where "new = remdups (filter (\<lambda>y. y \<notin> set seen) (map snd (filter (\<lambda>e. fst e = x) es)))"
  have new: "set new \<subseteq> set es `` {x}"
    by (auto simp: new_def intro: rev_image_eqI)
  have x: "x \<in> set seen"
    using "2.prems" by simp
  have "set (reach es (seen @ new) (queue @ new)) \<subseteq> (set es)\<^sup>* `` set (seen @ new)"
    using "2.prems" by (intro "2.IH" [OF new_def]) auto
  also have "\<dots> \<subseteq> (set es)\<^sup>* `` set seen"
  proof
    fix z assume "z \<in> (set es)\<^sup>* `` set (seen @ new)"
    then obtain y where y: "y \<in> set seen \<union> set new" "(y, z) \<in> (set es)\<^sup>*"
      by auto
    show "z \<in> (set es)\<^sup>* `` set seen"
    proof (cases "y \<in> set seen")
      case True
      with y show ?thesis by blast
    next
      case False
      with y new have "(x, y) \<in> set es" by auto
      with y have "(x, z) \<in> (set es)\<^sup>*"
        by (meson converse_rtrancl_into_rtrancl)
      with x show ?thesis by blast
    qed
  qed
  finally show ?case
    by (simp add: new_def Let_def)
qed

lemma reach_closed:
  "\<lbrakk>\<forall>y \<in> set seen - set queue. set es `` {y} \<subseteq> set seen; set queue \<subseteq> set seen\<rbrakk>
   \<Longrightarrow> set es `` set (reach es seen queue) \<subseteq> set (reach es seen queue)"
proof (induction es seen queue rule: reach.induct)
  case (1 es seen)
  then show ?case by auto
next
  case (2 es seen x queue)
  define new where "new = remdups (filter (\<lambda>y. y \<notin> set seen) (map snd (filter (\<lambda>e. fst e = x) es)))"
  have new: "set es `` {x} \<subseteq> set seen \<union> set new"
    by (force simp: new_def)
  have "\<forall>y \<in> set (seen @ new) - set (queue @ new). set es `` {y} \<subseteq> set (seen @ new)"
  proof
    fix y assume y: "y \<in> set (seen @ new) - set (queue @ new)"
    show "set es `` {y} \<subseteq> set (seen @ new)"
    proof (cases "y = x")
      case True
      with new show ?thesis by simp
    next
      case False
      with y have "y \<in> set seen - set (x # queue)" by auto
      with "2.prems"(1) have "set es `` {y} \<subseteq> set seen" by blast
      then show ?thesis by auto
    qed
  qed
  moreover have "set (queue @ new) \<subseteq> set (seen @ new)"
    using "2.prems"(2) by auto
  ultimately have "set es `` set (reach es (seen @ new) (queue @ new))
      \<subseteq> set (reach es (seen @ new) (queue @ new))"
    by (rule "2.IH" [OF new_def])
  then show ?case
    by (simp add: new_def Let_def)
qed

lemma set_reach: "set (reach es [src] [src]) = (set es)\<^sup>* `` {src}"
proof
  show "set (reach es [src] [src]) \<subseteq> (set es)\<^sup>* `` {src}"
    using reach_sound [of "[src]" "[src]" es] by simp
next
  have closed: "set es `` set (reach es [src] [src]) \<subseteq> set (reach es [src] [src])"
    by (rule reach_closed) simp_all
  have src: "src \<in> set (reach es [src] [src])"
    using reach_seen [of "[src]" es "[src]"] by simp
  have "y \<in> set (reach es [src] [src])" if "(src, y) \<in> (set es)\<^sup>*" for y
    using that
  proof (induction rule: rtrancl_induct)
    case base
    show ?case by (rule src)
  next
    case (step y z)
    then show ?case using closed by blast
  qed
  then show "(set es)\<^sup>* `` {src} \<subseteq> set (reach es [src] [src])"
    by auto
qed

section \<open>The pruning filter and its specification\<close>

declare reach.simps [simp del]

lemma subgraph_induced: "subgraph G ns = induced_subgraph G (set ns)"
  by (simp add: subgraph_def induced_subgraph_def)

lemma set_swap_pairs: "set (map prod.swap es) = (set es)\<inverse>"
  by auto

lemma descendants_node:
  "n \<in> set (nodes G) \<Longrightarrow>
   \<exists>d. descendants G n = Inr d \<and> insert n (set d) = (edge_rel G)\<^sup>* `` {n}"
  by (auto simp: descendants_def set_reach edge_rel_def)

lemma ancestors_node:
  assumes "n \<in> set (nodes G)"
  shows "\<exists>a. ancestors G n = Inr a \<and> insert n (set a) = ((edge_rel G)\<inverse>)\<^sup>* `` {n}"
proof -
  have "set (map prod.swap (edge_pairs G)) = (edge_rel G)\<inverse>"
    unfolding edge_rel_def by (rule set_swap_pairs)
  then show ?thesis
    using assms by (auto simp: ancestors_def set_reach simp del: set_map)
qed

lemma collect_sets:
  assumes "n \<in> set (nodes G)"
  shows "set (fst (collect G n (ds, an))) = set ds \<union> (edge_rel G)\<^sup>* `` {n}"
    and "set (snd (collect G n (ds, an))) = set an \<union> ((edge_rel G)\<inverse>)\<^sup>* `` {n}"
proof -
  from descendants_node [OF assms] obtain d
    where d: "descendants G n = Inr d" "insert n (set d) = (edge_rel G)\<^sup>* `` {n}"
    by blast
  from ancestors_node [OF assms] obtain a
    where a: "ancestors G n = Inr a" "insert n (set a) = ((edge_rel G)\<inverse>)\<^sup>* `` {n}"
    by blast
  show "set (fst (collect G n (ds, an))) = set ds \<union> (edge_rel G)\<^sup>* `` {n}"
    using d by (auto simp: collect_def)
  show "set (snd (collect G n (ds, an))) = set an \<union> ((edge_rel G)\<inverse>)\<^sup>* `` {n}"
    using a by (auto simp: collect_def)
qed

lemma fold_collect_sets:
  "set ns \<subseteq> set (nodes G) \<Longrightarrow>
   set (fst (fold (collect G) ns acc)) = set (fst acc) \<union> (edge_rel G)\<^sup>* `` set ns
   \<and> set (snd (fold (collect G) ns acc)) = set (snd acc) \<union> ((edge_rel G)\<inverse>)\<^sup>* `` set ns"
proof (induction ns arbitrary: acc)
  case Nil
  show ?case by simp
next
  case (Cons n ns)
  obtain ds an where acc: "acc = (ds, an)" by (cases acc)
  have n: "n \<in> set (nodes G)" and ns: "set ns \<subseteq> set (nodes G)"
    using Cons.prems by auto
  show ?case
    using Cons.IH [OF ns, of "collect G n (ds, an)"] collect_sets [OF n, of ds an]
    by (auto simp: acc)
qed

lemma initial_list_present:
  "set (filter (\<lambda>a. a \<in> set (nodes (graph st))) (list_of w (initial_addresses st)))
     = present_seeds st"
  by (auto simp: present_seeds_def)

lemma length_initial_list:
  "distinct (initial_addresses st) \<Longrightarrow>
   length (filter (\<lambda>a. a \<in> set (nodes (graph st))) (list_of w (initial_addresses st)))
     = card (present_seeds st)"
  by (metis distinct_card distinct_filter distinct_list_of initial_list_present)

lemma filter_relevant_graph_pruned_spec:
  "distinct (initial_addresses st) \<Longrightarrow> filter_relevant_graph w st = pruned_spec st"
proof -
  assume dist: "distinct (initial_addresses st)"
  define initial_list
    where "initial_list = filter (\<lambda>a. a \<in> set (nodes (graph st))) (list_of w (initial_addresses st))"
  obtain ds an where fc: "fold (collect (graph st)) initial_list ([], []) = (ds, an)"
    by (cases "fold (collect (graph st)) initial_list ([], [])")
  have "set initial_list \<subseteq> set (nodes (graph st))"
    by (auto simp: initial_list_def)
  from fold_collect_sets [OF this, of "([], [])"]
  have "set ds = (edge_rel (graph st))\<^sup>* `` set initial_list"
    and "set an = ((edge_rel (graph st))\<inverse>)\<^sup>* `` set initial_list"
    by (simp_all add: fc)
  moreover have il: "set initial_list = present_seeds st"
    unfolding initial_list_def by (rule initial_list_present)
  ultimately have "set ds = seed_descendants st" "set an = seed_ancestors st"
    by (simp_all add: seed_descendants_def seed_ancestors_def)
  then have "subgraph (graph st) (py_intersection ds an)
      = induced_subgraph (graph st) (seed_descendants st \<inter> seed_ancestors st)"
    by (simp add: subgraph_induced)
  moreover have "subgraph (graph st) initial_list = induced_subgraph (graph st) (present_seeds st)"
    by (simp add: subgraph_induced il)
  moreover have "length initial_list = card (present_seeds st)"
    unfolding initial_list_def by (rule length_initial_list [OF dist])
  ultimately show ?thesis
    by (simp add: filter_relevant_graph_def pruned_spec_def initial_list_def [symmetric] fc Let_def)
qed

lemma filter_chain:
  "filter_relevant_graph some_order chain =
     \<lparr>nodes = [''A'', ''B'', ''X''],
      edges = [((''A'', ''X''), Some ''tx1'', 100), ((''X'', ''B''), Some ''tx2'', 200)]\<rparr>"
  by (simp add: chain_def some_order_def filter_relevant_graph_def list_of_def Let_def
        collect_def descendants_def ancestors_def edge_pairs_def subgraph_def reach.simps
        py_intersection_def py_add_def py_update_def)

lemma filter_lonely:
  "filter_relevant_graph some_order lonely = \<lparr>nodes = [''A''], edges = []\<rparr>"
  by (simp add: lonely_def chain_def some_order_def filter_relevant_graph_def list_of_def
        Let_def subgraph_def)

text \<open>
  Claim C1. For every graph and every set of seeds, \<open>filter_relevant_graph\<close> returns
  what the specification describes: the subgraph induced by the present seeds when
  fewer than two seeds are nodes of the graph, and otherwise the subgraph induced by
  the intersection of \<open>D\<close>, the nodes reachable from a present seed, and \<open>A\<close>, the
  nodes that reach a present seed (the seeds included). The seeds are a Python set,
  so their list has no duplicates.
\<close>

theorem filter_relevant_graph_refines_spec:
  "distinct (initial_addresses st) \<Longrightarrow> filter_relevant_graph w st = pruned_spec st"
  by (rule filter_relevant_graph_pruned_spec)

text \<open>
  The specification evaluated through the theorem: on the chain it keeps \<open>A\<close>, \<open>B\<close>
  and \<open>X\<close> with the two edges between them; with the single seed \<open>A\<close> it keeps \<open>A\<close>
  alone.
\<close>

theorem filter_relevant_graph_refines_spec_witness:
  "distinct (initial_addresses chain)
   \<and> pruned_spec chain =
       \<lparr>nodes = [''A'', ''B'', ''X''],
        edges = [((''A'', ''X''), Some ''tx1'', 100), ((''X'', ''B''), Some ''tx2'', 200)]\<rparr>
   \<and> distinct (initial_addresses lonely)
   \<and> pruned_spec lonely = \<lparr>nodes = [''A''], edges = []\<rparr>"
proof -
  have c: "distinct (initial_addresses chain)"
    by (simp add: chain_def)
  have l: "distinct (initial_addresses lonely)"
    by (simp add: lonely_def)
  show ?thesis
    using filter_relevant_graph_refines_spec [OF c, of some_order]
          filter_relevant_graph_refines_spec [OF l, of some_order] c l
    by (simp add: filter_chain filter_lonely)
qed

section \<open>Paths between seeds\<close>

lemma path_reach:
  "is_path G p \<Longrightarrow> x \<in> set p \<Longrightarrow>
   (hd p, x) \<in> (edge_rel G)\<^sup>* \<and> (x, last p) \<in> (edge_rel G)\<^sup>*"
proof (induction G p arbitrary: x rule: is_path.induct)
  case (1 G)
  then show ?case by simp
next
  case (2 G y)
  then show ?case by simp
next
  case (3 G a b zs)
  show ?case
  proof (cases "x = a")
    case True
    have "(a, b) \<in> (edge_rel G)\<^sup>*" using "3.prems" by auto
    moreover have "is_path G (b # zs)" "b \<in> set (b # zs)"
      using "3.prems" by simp_all
    then have "(b, last (b # zs)) \<in> (edge_rel G)\<^sup>*"
      using "3.IH" [of b] by simp
    ultimately show ?thesis using True by auto
  next
    case False
    with "3.prems" have "x \<in> set (b # zs)" "is_path G (b # zs)" by auto
    with "3.IH" [of x] have "(b, x) \<in> (edge_rel G)\<^sup>*" "(x, last (b # zs)) \<in> (edge_rel G)\<^sup>*"
      by auto
    moreover have "(a, b) \<in> edge_rel G" using "3.prems" by simp
    ultimately show ?thesis by (auto intro: converse_rtrancl_into_rtrancl)
  qed
qed

lemma reach_path:
  "(a, b) \<in> (edge_rel G)\<^sup>* \<Longrightarrow> \<exists>p. is_path G p \<and> hd p = a \<and> last p = b"
proof (induction rule: converse_rtrancl_induct)
  case base
  have "is_path G [b]" by simp
  then show ?case by (metis last.simps list.sel(1))
next
  case (step a c)
  then obtain p where p: "is_path G p" "hd p = c" "last p = b" by blast
  then obtain zs where zs: "p = c # zs" by (cases p) auto
  with p step.hyps(1) have "is_path G (a # p)" by simp
  moreover have "hd (a # p) = a" "last (a # p) = b" using p zs by auto
  ultimately show ?case by blast
qed

lemma path_join:
  "is_path G p \<Longrightarrow> is_path G q \<Longrightarrow> last p = hd q \<Longrightarrow>
   is_path G (p @ tl q) \<and> hd (p @ tl q) = hd p \<and> last (p @ tl q) = last q"
proof (induction G p rule: is_path.induct)
  case (1 G)
  then show ?case by simp
next
  case (2 G y)
  then show ?case by (cases q) auto
next
  case (3 G a b zs)
  then have "is_path G ((b # zs) @ tl q) \<and> last ((b # zs) @ tl q) = last q"
    by simp
  with "3.prems" show ?case by simp
qed

lemma on_seed_path_iff:
  "on_seed_path st x \<longleftrightarrow> x \<in> seed_descendants st \<inter> seed_ancestors st"
proof
  assume "on_seed_path st x"
  then obtain p where p: "is_path (graph st) p" "hd p \<in> present_seeds st"
      "last p \<in> present_seeds st" "x \<in> set p"
    by (auto simp: on_seed_path_def)
  from path_reach [OF p(1) p(4)]
  have "(hd p, x) \<in> (edge_rel (graph st))\<^sup>*" "(last p, x) \<in> ((edge_rel (graph st))\<inverse>)\<^sup>*"
    by (simp_all add: rtrancl_converse)
  with p(2,3) show "x \<in> seed_descendants st \<inter> seed_ancestors st"
    by (auto simp: seed_descendants_def seed_ancestors_def)
next
  assume "x \<in> seed_descendants st \<inter> seed_ancestors st"
  then obtain s1 s2 where s: "s1 \<in> present_seeds st" "s2 \<in> present_seeds st"
      "(s1, x) \<in> (edge_rel (graph st))\<^sup>*" "(x, s2) \<in> (edge_rel (graph st))\<^sup>*"
    by (auto simp: seed_descendants_def seed_ancestors_def rtrancl_converse)
  from reach_path [OF s(3)] obtain p where p: "is_path (graph st) p" "hd p = s1" "last p = x"
    by blast
  from reach_path [OF s(4)] obtain q where q: "is_path (graph st) q" "hd q = x" "last q = s2"
    by blast
  have "p \<noteq> []" using p(1) by auto
  then have "x \<in> set p" using p(3) last_in_set by blast
  moreover from path_join [OF p(1) q(1)] p q
  have "is_path (graph st) (p @ tl q)" "hd (p @ tl q) = s1" "last (p @ tl q) = s2"
    by simp_all
  ultimately show "on_seed_path st x"
    unfolding on_seed_path_def using s(1,2) by (intro exI [of _ "p @ tl q"]) auto
qed

lemma wf_graph_reach:
  "(s, x) \<in> (edge_rel G)\<^sup>* \<Longrightarrow> wf_graph G \<Longrightarrow> s \<in> set (nodes G) \<Longrightarrow> x \<in> set (nodes G)"
  by (induction rule: rtrancl_induct) (auto simp: wf_graph_def edge_rel_def)

text \<open>
  Claim C2. In a graph with at least two seeds among its nodes, the pruning filter
  keeps an address exactly when the address lies on a directed path that starts at a
  seed and ends at a seed (the same seed when the path is a cycle or has length
  zero). So an address from which no seed can be reached is not kept.
\<close>

theorem kept_iff_on_seed_path:
  assumes "distinct (initial_addresses st)" and "wf_graph (graph st)"
    and "2 \<le> card (present_seeds st)"
  shows "(x \<in> set (nodes (filter_relevant_graph w st)) \<longleftrightarrow> on_seed_path st x)
       \<and> ((\<forall>s \<in> present_seeds st. (x, s) \<notin> (edge_rel (graph st))\<^sup>*)
            \<longrightarrow> x \<notin> set (nodes (filter_relevant_graph w st)))"
proof -
  have "filter_relevant_graph w st
      = induced_subgraph (graph st) (seed_descendants st \<inter> seed_ancestors st)"
    using assms(1,3) by (simp add: filter_relevant_graph_pruned_spec pruned_spec_def)
  then have "x \<in> set (nodes (filter_relevant_graph w st))
      \<longleftrightarrow> x \<in> set (nodes (graph st)) \<and> on_seed_path st x"
    by (auto simp: induced_subgraph_def on_seed_path_iff)
  moreover have "x \<in> set (nodes (graph st))" if "on_seed_path st x"
  proof -
    from that have "x \<in> seed_descendants st" by (simp add: on_seed_path_iff)
    then obtain s where "s \<in> present_seeds st" "(s, x) \<in> (edge_rel (graph st))\<^sup>*"
      by (auto simp: seed_descendants_def)
    then show ?thesis
      using wf_graph_reach [OF _ assms(2)] by (auto simp: present_seeds_def)
  qed
  ultimately have iff: "x \<in> set (nodes (filter_relevant_graph w st)) \<longleftrightarrow> on_seed_path st x"
    by blast
  have "\<not> on_seed_path st x" if "\<forall>s \<in> present_seeds st. (x, s) \<notin> (edge_rel (graph st))\<^sup>*"
    using that by (auto simp: on_seed_path_iff seed_ancestors_def rtrancl_converse)
  with iff show ?thesis by blast
qed

text \<open>
  The chain of the specification: with the seeds \<open>A\<close> and \<open>B\<close> the filter keeps
  exactly \<open>A\<close>, \<open>X\<close> and \<open>B\<close>; \<open>X\<close> lies on a path between seeds and the dead end
  \<open>Y\<close> does not.
\<close>

theorem kept_iff_on_seed_path_witness:
  "distinct (initial_addresses chain) \<and> wf_graph (graph chain)
   \<and> 2 \<le> card (present_seeds chain)
   \<and> set (nodes (filter_relevant_graph some_order chain)) = {''A'', ''X'', ''B''}
   \<and> on_seed_path chain ''X'' \<and> \<not> on_seed_path chain ''Y''"
proof -
  have c: "distinct (initial_addresses chain)"
    by (simp add: chain_def)
  have g: "wf_graph (graph chain)"
    by (simp add: chain_def wf_graph_def edge_pairs_def)
  have p: "2 \<le> card (present_seeds chain)"
    by (simp add: chain_def present_seeds_def)
  show ?thesis
    using kept_iff_on_seed_path [OF c g p, of "''X''" some_order]
          kept_iff_on_seed_path [OF c g p, of "''Y''" some_order] c g p
    by (auto simp: filter_chain)
qed

section \<open>Relevance of a timestamp for an address\<close>

text \<open>
  Claim C3, as the code has it. \<open>is_tx_relevant\<close> holds of an address and a timestamp
  exactly when one of the windows recorded for the address contains the timestamp, both
  bounds included. So it is false at every timestamp for an address with no recorded
  window; and for an address whose only window is \<open>(lo, hi)\<close> with \<open>lo \<le> hi\<close> it is
  true at \<open>lo\<close> and at \<open>hi\<close> and false at \<open>lo - 1\<close> and at \<open>hi + 1\<close>. (The bound
  \<open>lo \<le> hi\<close> is needed: nothing in the code orders the two dates of the caller.)
\<close>

theorem is_tx_relevant_inclusive_window:
  "(is_tx_relevant st a t \<longleftrightarrow> (\<exists>(lo, hi) \<in> set (windows st a). lo \<le> t \<and> t \<le> hi))
   \<and> (windows st a = [] \<longrightarrow> \<not> is_tx_relevant st a t)
   \<and> (windows st a = [(lo, hi)] \<and> lo \<le> hi \<longrightarrow>
        is_tx_relevant st a lo \<and> is_tx_relevant st a hi
        \<and> \<not> is_tx_relevant st a (lo - 1) \<and> \<not> is_tx_relevant st a (hi + 1))"
  by (simp add: is_tx_relevant_windows in_some_window_iff)

text \<open>
  The theorem at a seed with the window \<open>(10, 20)\<close>, and at an address that has no
  window.
\<close>

theorem is_tx_relevant_inclusive_window_witness:
  "windows (init \<lparr>http_get = (\<lambda>k u. TransportError), set_order = (\<lambda>S. 0)\<rparr>
              [''a''] 1 (Some 10) (Some 20)) ''a'' = [(10, 20)]
   \<and> is_tx_relevant (init \<lparr>http_get = (\<lambda>k u. TransportError), set_order = (\<lambda>S. 0)\<rparr>
              [''a''] 1 (Some 10) (Some 20)) ''a'' 10
   \<and> is_tx_relevant (init \<lparr>http_get = (\<lambda>k u. TransportError), set_order = (\<lambda>S. 0)\<rparr>
              [''a''] 1 (Some 10) (Some 20)) ''a'' 20
   \<and> \<not> is_tx_relevant (init \<lparr>http_get = (\<lambda>k u. TransportError), set_order = (\<lambda>S. 0)\<rparr>
              [''a''] 1 (Some 10) (Some 20)) ''a'' 9
   \<and> \<not> is_tx_relevant (init \<lparr>http_get = (\<lambda>k u. TransportError), set_order = (\<lambda>S. 0)\<rparr>
              [''a''] 1 (Some 10) (Some 20)) ''a'' 21
   \<and> windows (init \<lparr>http_get = (\<lambda>k u. TransportError), set_order = (\<lambda>S. 0)\<rparr>
              [''a''] 1 (Some 10) (Some 20)) ''b'' = []
   \<and> \<not> is_tx_relevant (init \<lparr>http_get = (\<lambda>k u. TransportError), set_order = (\<lambda>S. 0)\<rparr>
              [''a''] 1 (Some 10) (Some 20)) ''b'' 15"
  using is_tx_relevant_inclusive_window
          [of "init \<lparr>http_get = (\<lambda>k u. TransportError), set_order = (\<lambda>S. 0)\<rparr>
                 [''a''] 1 (Some 10) (Some 20)" "''a''" 10 10 20]
        is_tx_relevant_inclusive_window
          [of "init \<lparr>http_get = (\<lambda>k u. TransportError), set_order = (\<lambda>S. 0)\<rparr>
                 [''a''] 1 (Some 10) (Some 20)" "''b''" 15 10 20]
  by (simp add: windows_init)

text \<open>
  The claim as it is written fails where the caller's start date lies after the end
  date: the only window of the seed is then \<open>(5, 3)\<close>, and the timestamp \<open>5\<close>, its
  lower bound, is not relevant.
\<close>

theorem is_tx_relevant_inverted_window_counterexample:
  "windows (init \<lparr>http_get = (\<lambda>k u. TransportError), set_order = (\<lambda>S. 0)\<rparr>
              [''a''] 1 (Some 5) (Some 3)) ''a'' = [(5, 3)]
   \<and> \<not> is_tx_relevant (init \<lparr>http_get = (\<lambda>k u. TransportError), set_order = (\<lambda>S. 0)\<rparr>
              [''a''] 1 (Some 5) (Some 3)) ''a'' 5"
  by (simp add: windows_init is_tx_relevant_windows)

section \<open>The default window of a seed\<close>

text \<open>
  Claim C10. When neither date is supplied, every seed address starts with exactly one
  window, \<open>(0, 99999999999)\<close>; a timestamp is then relevant for a seed exactly when it
  lies between \<open>0\<close> and \<open>99999999999\<close>, so a later timestamp is not relevant.
\<close>

theorem init_default_window:
  "a \<in> set addrs \<Longrightarrow>
     windows (init w addrs ml None None) a = [(0, 99999999999)]
     \<and> address_constraints (init w addrs ml None None) a = Some [(0, 99999999999)]
     \<and> (is_tx_relevant (init w addrs ml None None) a t \<longleftrightarrow> 0 \<le> t \<and> t \<le> 99999999999)
     \<and> (99999999999 < t \<longrightarrow> \<not> is_tx_relevant (init w addrs ml None None) a t)"
proof -
  assume a: "a \<in> set addrs"
  let ?st = "init w addrs ml None None"
  have ws: "windows ?st a = [(0, 99999999999)]"
    using a by (simp add: windows_init)
  then have "address_constraints ?st a = Some [(0, 99999999999)]"
    by (simp add: windows_def split: option.splits)
  moreover have "is_tx_relevant ?st a t \<longleftrightarrow> 0 \<le> t \<and> t \<le> 99999999999"
    by (simp add: is_tx_relevant_windows ws)
  ultimately show ?thesis
    using ws by simp
qed

theorem init_default_window_witness:
  "''addr1'' \<in> set [''addr1'', ''addr2'']
   \<and> windows (init \<lparr>http_get = (\<lambda>k u. TransportError), set_order = (\<lambda>S. 1)\<rparr>
                [''addr1'', ''addr2''] 1 None None) ''addr1'' = [(0, 99999999999)]
   \<and> is_tx_relevant (init \<lparr>http_get = (\<lambda>k u. TransportError), set_order = (\<lambda>S. 1)\<rparr>
                [''addr1'', ''addr2''] 1 None None) ''addr1'' 99999999999
   \<and> \<not> is_tx_relevant (init \<lparr>http_get = (\<lambda>k u. TransportError), set_order = (\<lambda>S. 1)\<rparr>
                [''addr1'', ''addr2''] 1 None None) ''addr1'' 100000000000"
  using init_default_window
          [of "''addr1''" "[''addr1'', ''addr2'']"
              "\<lparr>http_get = (\<lambda>k u. TransportError), set_order = (\<lambda>S. 1)\<rparr>" 1 99999999999]
        init_default_window
          [of "''addr1''" "[''addr1'', ''addr2'']"
              "\<lparr>http_get = (\<lambda>k u. TransportError), set_order = (\<lambda>S. 1)\<rparr>" 1 100000000000]
  by simp

section \<open>Failure of a batch lookup\<close>

text \<open>
  Claim C8. When the request of a batch raises, or is answered with a status other
  than 200, \<open>fetch_batch_transactions\<close> returns the empty list: the exception stays
  inside the \<^verbatim>\<open>try\<close> block. The batch then changes neither the analyzer nor the next
  frontier, and the loop goes on with the batches that follow.
\<close>

theorem fetch_failure_is_empty_batch:
  "http_get w (level, i) (lookup_url batch) = TransportError
     \<or> (\<exists>code data. http_get w (level, i) (lookup_url batch) = Response code data \<and> code \<noteq> 200)
   \<Longrightarrow> fetch_batch_transactions w (level, i) batch = []
       \<and> process_batch w level cur (i, batch) (st, nxt) = (st, nxt)
       \<and> fold (process_batch w level cur) ((i, batch) # rest) (st, nxt)
           = fold (process_batch w level cur) rest (st, nxt)"
proof -
  assume "http_get w (level, i) (lookup_url batch) = TransportError
     \<or> (\<exists>code data. http_get w (level, i) (lookup_url batch) = Response code data \<and> code \<noteq> 200)"
  then have "fetch_batch_transactions w (level, i) batch = []"
    by (auto simp: fetch_batch_transactions_def try_fetch_def)
  then show ?thesis
    by (simp add: process_batch_def)
qed

text \<open>
  A level of two batches: the first request is answered with status 503, the second
  raises; the seeds' analyzer comes out unchanged.
\<close>

theorem fetch_failure_is_empty_batch_witness:
  "fetch_batch_transactions
      \<lparr>http_get = (\<lambda>k u. if k = (0, 0) then Response 503 Malformed else TransportError),
       set_order = (\<lambda>S. 0)\<rparr> (0, 0) [''addr1''] = []
   \<and> fetch_batch_transactions
      \<lparr>http_get = (\<lambda>k u. if k = (0, 0) then Response 503 Malformed else TransportError),
       set_order = (\<lambda>S. 0)\<rparr> (0, 1) [''addr2''] = []
   \<and> fold (process_batch
        \<lparr>http_get = (\<lambda>k u. if k = (0, 0) then Response 503 Malformed else TransportError),
         set_order = (\<lambda>S. 0)\<rparr> 0 [''addr1'', ''addr2''])
        [(0, [''addr1'']), (1, [''addr2''])]
        (init \<lparr>http_get = (\<lambda>k u. TransportError), set_order = (\<lambda>S. 0)\<rparr>
              [''addr1'', ''addr2''] 1 None None, [])
      = (init \<lparr>http_get = (\<lambda>k u. TransportError), set_order = (\<lambda>S. 0)\<rparr>
              [''addr1'', ''addr2''] 1 None None, [])"
  using fetch_failure_is_empty_batch
    [of "\<lparr>http_get = (\<lambda>k u. if k = (0, 0) then Response 503 Malformed else TransportError),
         set_order = (\<lambda>S. 0)\<rparr>" 0 0 "[''addr1'']" "[''addr1'', ''addr2'']"
        "init \<lparr>http_get = (\<lambda>k u. TransportError), set_order = (\<lambda>S. 0)\<rparr>
              [''addr1'', ''addr2''] 1 None None" "[]" "[(1, [''addr2''])]"]
      fetch_failure_is_empty_batch
    [of "\<lparr>http_get = (\<lambda>k u. if k = (0, 0) then Response 503 Malformed else TransportError),
         set_order = (\<lambda>S. 0)\<rparr>" 0 1 "[''addr2'']" "[''addr1'', ''addr2'']"
        "init \<lparr>http_get = (\<lambda>k u. TransportError), set_order = (\<lambda>S. 0)\<rparr>
              [''addr1'', ''addr2''] 1 None None" "[]" "[]"]
  by simp

end
